theory Spec2Isabelle
  imports Main "HOL-Library.Word" "HOL-Library.Signed_Division"
begin

section \<open>Machine integers and panics\<close>

text \<open>
  Go's \<open>int64\<close> is a 64-bit two's complement integer: \<open>+\<close> and \<open>-\<close> wrap around,
  \<open>sint\<close> reads the signed value. A run-time panic of the Go program is a value of
  type \<open>panic\<close>; an operation that can panic returns \<open>panic + 'a\<close>.
\<close>

type_synonym int64 = "64 word"

datatype panic = IndexOutOfRange | DivideByZero | NonPositiveTicker

text \<open>
  Go's integer division \<open>s / n\<close> on \<open>int64\<close>: a run-time panic when the divisor is
  zero, otherwise the quotient truncated towards zero, wrapping for
  \<open>MinInt64 / -1\<close>.
\<close>

definition int64_div :: "int64 \<Rightarrow> int64 \<Rightarrow> panic + int64" where
  "int64_div s n =
     (if n = 0 then Inl DivideByZero else Inr (word_of_int (sint s sdiv sint n)))"

section \<open>ratecounter.go\<close>

record RateCounter =
  others :: int64
  bins :: "int64 list"
  index :: nat

text \<open>
  The goroutine a constructor starts, if any: \<open>Rotation d gran\<close> is the closure
  that creates a ticker of period \<open>d = interval / gran\<close> and runs one rotation
  step per tick.
\<close>

datatype task = NoTask | Rotation int nat

text \<open>
  \<open>NewRateCounterWithGranularity\<close>: the constructed counter together with the
  goroutine it has started. \<open>interval\<close> is a \<open>time.Duration\<close> (nanoseconds),
  \<open>gran\<close> a Go \<open>int\<close>; on the second branch both are positive, where Go's
  truncating division is \<open>div\<close>.
\<close>

definition NewRateCounterWithGranularity :: "int \<Rightarrow> int \<Rightarrow> RateCounter \<times> task" where
  "NewRateCounterWithGranularity interval gran =
     (if interval \<le> 0 \<or> gran \<le> 1
      then (\<lparr>others = 0, bins = [0], index = 0\<rparr>, NoTask)
      else (\<lparr>others = 0, bins = replicate (nat gran) 0, index = 0\<rparr>,
            Rotation (interval div gran) (nat gran)))"

definition NewCounter :: "RateCounter \<times> task" where
  "NewCounter = NewRateCounterWithGranularity 0 1"

definition DefaultGranularity :: int where
  "DefaultGranularity = 32"

definition NewRateCounter :: "int \<Rightarrow> RateCounter \<times> task" where
  "NewRateCounter interval = NewRateCounterWithGranularity interval DefaultGranularity"

text \<open>
  \<open>Add\<close>: \<open>atomic.AddInt64(&r.bins[r.index], val)\<close>; indexing the slice out of
  range panics.
\<close>

definition RateCounter_Add :: "int64 \<Rightarrow> RateCounter \<Rightarrow> panic + RateCounter" where
  "RateCounter_Add val r =
     (if index r < length (bins r)
      then Inr (r\<lparr>bins := (bins r)[index r := bins r ! index r + val]\<rparr>)
      else Inl IndexOutOfRange)"

text \<open>\<open>Rate\<close>: \<open>r.others + atomic.LoadInt64(&r.bins[r.index])\<close>.\<close>

definition Rate :: "RateCounter \<Rightarrow> panic + int64" where
  "Rate r =
     (if index r < length (bins r)
      then Inr (others r + bins r ! index r)
      else Inl IndexOutOfRange)"

text \<open>
  One iteration of the rotation goroutine's loop body, for the \<open>gran\<close> the closure
  has captured:
  \<^verbatim>\<open>
  i = r.index
  r.index = (r.index + 1) % gran
  r.others += r.bins[i] - atomic.SwapInt64(&r.bins[r.index], 0)
  \<close>
  Go orders the calls of an expression, not a call against the read of another
  operand: \<open>r.bins[i]\<close> is read here from the slice as the swap has left it, the
  order moving_average.go spells out.
\<close>

definition rotation_step :: "nat \<Rightarrow> RateCounter \<Rightarrow> panic + RateCounter" where
  "rotation_step gran r =
     (if gran = 0 then Inl DivideByZero
      else
        let i = index r;
            r1 = r\<lparr>index := (index r + 1) mod gran\<rparr>
        in if index r1 < length (bins r1) \<and> i < length (bins r1)
           then
             let v = bins r1 ! index r1;
                 r2 = r1\<lparr>bins := (bins r1)[index r1 := 0]\<rparr>
             in Inr (r2\<lparr>others := others r2 + (bins r2 ! i - v)\<rparr>)
           else Inl IndexOutOfRange)"

text \<open>
  The passage of one ticker period for a counter and its goroutine: nothing
  happens without a goroutine; \<open>time.NewTicker\<close> panics on a period that is not
  positive; otherwise the loop body runs once.
\<close>

fun RateCounter_tick :: "RateCounter \<times> task \<Rightarrow> panic + RateCounter \<times> task" where
  "RateCounter_tick (r, NoTask) = Inr (r, NoTask)"
| "RateCounter_tick (r, Rotation d gran) =
     (if d \<le> 0 then Inl NonPositiveTicker
      else case rotation_step gran r of
             Inl e \<Rightarrow> Inl e
           | Inr r' \<Rightarrow> Inr (r', Rotation d gran))"

section \<open>moving_average.go\<close>

record MovingAverage =
  otherSums :: int64
  otherCounts :: int64
  sums :: "int64 list"
  counts :: "int64 list"
  index :: nat

definition NewMovingAverageWithGranularity :: "int \<Rightarrow> int \<Rightarrow> MovingAverage \<times> task" where
  "NewMovingAverageWithGranularity interval gran =
     (if interval \<le> 0 \<or> gran \<le> 1
      then (\<lparr>otherSums = 0, otherCounts = 0, sums = [0], counts = [0], index = 0\<rparr>, NoTask)
      else (\<lparr>otherSums = 0, otherCounts = 0,
             sums = replicate (nat gran) 0, counts = replicate (nat gran) 0, index = 0\<rparr>,
            Rotation (interval div gran) (nat gran)))"

definition NewAverage :: "MovingAverage \<times> task" where
  "NewAverage = NewMovingAverageWithGranularity 0 1"

definition NewMovingAverage :: "int \<Rightarrow> MovingAverage \<times> task" where
  "NewMovingAverage interval = NewMovingAverageWithGranularity interval DefaultGranularity"

text \<open>
  \<open>Add\<close>: two atomic additions, one after the other, each indexing its own slice.
\<close>

definition MovingAverage_Add :: "int64 \<Rightarrow> MovingAverage \<Rightarrow> panic + MovingAverage" where
  "MovingAverage_Add val r =
     (if index r < length (sums r)
      then
        let r1 = r\<lparr>sums := (sums r)[index r := sums r ! index r + val]\<rparr>
        in if index r1 < length (counts r1)
           then Inr (r1\<lparr>counts := (counts r1)[index r1 := counts r1 ! index r1 + 1]\<rparr>)
           else Inl IndexOutOfRange
      else Inl IndexOutOfRange)"

text \<open>
  \<open>Average\<close>: the two loads, the two carried aggregates added, the guard on the
  count, the division.
\<close>

definition Average :: "MovingAverage \<Rightarrow> panic + int64" where
  "Average r =
     (if index r < length (sums r) \<and> index r < length (counts r)
      then
        let s = sums r ! index r;
            n = counts r ! index r;
            s = s + otherSums r;
            n = n + otherCounts r
        in if n = 0 then Inr 0 else int64_div s n
      else Inl IndexOutOfRange)"

text \<open>
  One iteration of the rotation goroutine's loop body:
  \<^verbatim>\<open>
  i = r.index
  r.index = (r.index + 1) % gran
  s := atomic.SwapInt64(&r.sums[r.index], 0)
  n := atomic.SwapInt64(&r.counts[r.index], 0)
  r.otherSums += r.sums[i] - s
  r.otherCounts += r.counts[i] - n
  \<close>
\<close>

definition average_rotation_step :: "nat \<Rightarrow> MovingAverage \<Rightarrow> panic + MovingAverage" where
  "average_rotation_step gran r =
     (if gran = 0 then Inl DivideByZero
      else
        let i = index r;
            r1 = r\<lparr>index := (index r + 1) mod gran\<rparr>
        in if index r1 < length (sums r1) \<and> index r1 < length (counts r1)
              \<and> i < length (sums r1) \<and> i < length (counts r1)
           then
             let s = sums r1 ! index r1;
                 r2 = r1\<lparr>sums := (sums r1)[index r1 := 0]\<rparr>;
                 n = counts r2 ! index r2;
                 r3 = r2\<lparr>counts := (counts r2)[index r2 := 0]\<rparr>;
                 r4 = r3\<lparr>otherSums := otherSums r3 + (sums r3 ! i - s)\<rparr>
             in Inr (r4\<lparr>otherCounts := otherCounts r4 + (counts r4 ! i - n)\<rparr>)
           else Inl IndexOutOfRange)"

fun MovingAverage_tick :: "MovingAverage \<times> task \<Rightarrow> panic + MovingAverage \<times> task" where
  "MovingAverage_tick (r, NoTask) = Inr (r, NoTask)"
| "MovingAverage_tick (r, Rotation d gran) =
     (if d \<le> 0 then Inl NonPositiveTicker
      else case average_rotation_step gran r of
             Inl e \<Rightarrow> Inl e
           | Inr r' \<Rightarrow> Inr (r', Rotation d gran))"

section \<open>Text rendering\<close>

text \<open>
  \<open>String\<close> calls \<open>strconv.FormatInt(v, 10)\<close> of Go's standard library: a minus
  sign for a negative value, then the decimal digits of the magnitude
  \<open>uint64(-v)\<close>, produced from the least significant digit by repeated division
  by ten, a single \<open>0\<close> for zero.
\<close>

definition digit_char :: "nat \<Rightarrow> char" where
  "digit_char d = ''0123456789'' ! d"

fun format_uint :: "nat \<Rightarrow> string" where
  "format_uint u =
     (if u < 10 then [digit_char u] else format_uint (u div 10) @ [digit_char (u mod 10)])"

definition FormatInt :: "int64 \<Rightarrow> string" where
  "FormatInt v =
     (if sint v < 0 then CHR ''-'' # format_uint (unat (- v)) else format_uint (unat v))"

definition RateCounter_String :: "RateCounter \<Rightarrow> panic + string" where
  "RateCounter_String r = (case Rate r of Inl e \<Rightarrow> Inl e | Inr v \<Rightarrow> Inr (FormatInt v))"

definition MovingAverage_String :: "MovingAverage \<Rightarrow> panic + string" where
  "MovingAverage_String r = (case Average r of Inl e \<Rightarrow> Inl e | Inr v \<Rightarrow> Inr (FormatInt v))"

section \<open>Sequential executions\<close>

text \<open>A panic ends the execution; otherwise the next operation runs on the new state.\<close>

definition and_then :: "panic + 'a \<Rightarrow> ('a \<Rightarrow> panic + 'b) \<Rightarrow> panic + 'b" where
  "and_then x f = (case x of Inl e \<Rightarrow> Inl e | Inr a \<Rightarrow> f a)"

text \<open>Successive calls of \<open>Add\<close>, one per element of the list, in order.\<close>

fun RateCounter_adds :: "int64 list \<Rightarrow> RateCounter \<Rightarrow> panic + RateCounter" where
  "RateCounter_adds [] r = Inr r"
| "RateCounter_adds (d # ds) r = and_then (RateCounter_Add d r) (RateCounter_adds ds)"

fun MovingAverage_adds :: "int64 list \<Rightarrow> MovingAverage \<Rightarrow> panic + MovingAverage" where
  "MovingAverage_adds [] r = Inr r"
| "MovingAverage_adds (d # ds) r = and_then (MovingAverage_Add d r) (MovingAverage_adds ds)"

text \<open>The passage of \<open>n\<close> ticker periods.\<close>

fun RateCounter_elapse :: "nat \<Rightarrow> RateCounter \<times> task \<Rightarrow> panic + RateCounter \<times> task" where
  "RateCounter_elapse 0 s = Inr s"
| "RateCounter_elapse (Suc n) s = and_then (RateCounter_tick s) (RateCounter_elapse n)"

fun MovingAverage_elapse :: "nat \<Rightarrow> MovingAverage \<times> task \<Rightarrow> panic + MovingAverage \<times> task" where
  "MovingAverage_elapse 0 s = Inr s"
| "MovingAverage_elapse (Suc n) s = and_then (MovingAverage_tick s) (MovingAverage_elapse n)"

text \<open>
  A sequential history of a counter whose goroutine has captured \<open>gran\<close>: calls of
  \<open>Add\<close> and iterations of the rotation loop, oldest first.
\<close>

datatype event = EvAdd int64 | EvRotate

fun RateCounter_event :: "nat \<Rightarrow> event \<Rightarrow> RateCounter \<Rightarrow> panic + RateCounter" where
  "RateCounter_event gran (EvAdd d) r = RateCounter_Add d r"
| "RateCounter_event gran EvRotate r = rotation_step gran r"

fun RateCounter_run :: "nat \<Rightarrow> event list \<Rightarrow> RateCounter \<Rightarrow> panic + RateCounter" where
  "RateCounter_run gran [] r = Inr r"
| "RateCounter_run gran (e # es) r =
     and_then (RateCounter_event gran e r) (RateCounter_run gran es)"

text \<open>
  What the window of a history holds: \<open>rotations es\<close> counts the rotation steps of
  \<open>es\<close>; a delta belongs to the window of the last \<open>g\<close> rotation periods when fewer
  than \<open>g\<close> rotation steps have followed it, and to the period \<open>k\<close> steps back when
  exactly \<open>k\<close> have.
\<close>

fun rotations :: "event list \<Rightarrow> nat" where
  "rotations [] = 0"
| "rotations (EvAdd d # es) = rotations es"
| "rotations (EvRotate # es) = Suc (rotations es)"

fun window_sum :: "nat \<Rightarrow> event list \<Rightarrow> int64" where
  "window_sum g [] = 0"
| "window_sum g (EvAdd d # es) = (if rotations es < g then d else 0) + window_sum g es"
| "window_sum g (EvRotate # es) = window_sum g es"

fun period_sum :: "nat \<Rightarrow> event list \<Rightarrow> int64" where
  "period_sum k [] = 0"
| "period_sum k (EvAdd d # es) = (if rotations es = k then d else 0) + period_sum k es"
| "period_sum k (EvRotate # es) = period_sum k es"

section \<open>The tick procedure as the specification words it\<close>

text \<open>
  Remember the active index as \<open>i\<close>; advance the active index modulo the
  granularity; swap the new active cell to zero, obtaining its previous value
  \<open>v\<close>; add to the carry the value that cell \<open>i\<close> held before the swap, less \<open>v\<close>.
\<close>

definition spec_rotation_step :: "nat \<Rightarrow> RateCounter \<Rightarrow> panic + RateCounter" where
  "spec_rotation_step gran r =
     (if gran = 0 then Inl DivideByZero
      else
        let i = RateCounter.index r;
            r1 = r\<lparr>RateCounter.index := (RateCounter.index r + 1) mod gran\<rparr>
        in if RateCounter.index r1 < length (bins r1) \<and> i < length (bins r1)
           then
             let before = bins r1 ! i;
                 v = bins r1 ! RateCounter.index r1;
                 r2 = r1\<lparr>bins := (bins r1)[RateCounter.index r1 := 0]\<rparr>
             in Inr (r2\<lparr>others := others r2 + (before - v)\<rparr>)
           else Inl IndexOutOfRange)"

definition spec_average_rotation_step :: "nat \<Rightarrow> MovingAverage \<Rightarrow> panic + MovingAverage" where
  "spec_average_rotation_step gran r =
     (if gran = 0 then Inl DivideByZero
      else
        let i = index r;
            r1 = r\<lparr>index := (index r + 1) mod gran\<rparr>
        in if index r1 < length (sums r1) \<and> index r1 < length (counts r1)
              \<and> i < length (sums r1) \<and> i < length (counts r1)
           then
             let before = (sums r1 ! i, counts r1 ! i);
                 v = (sums r1 ! index r1, counts r1 ! index r1);
                 r2 = r1\<lparr>sums := (sums r1)[index r1 := 0],
                          counts := (counts r1)[index r1 := 0]\<rparr>
             in Inr (r2\<lparr>otherSums := otherSums r2 + (fst before - fst v),
                        otherCounts := otherCounts r2 + (snd before - snd v)\<rparr>)
           else Inl IndexOutOfRange)"

section \<open>Reading a rendering back\<close>

text \<open>
  \<open>strconv.ParseInt(s, 10, 64)\<close> of Go's standard library, with every error as
  \<open>None\<close>: an optional sign, then at least one decimal digit and nothing else;
  the magnitude must fit the sign's half of the \<open>int64\<close> range.
\<close>

definition digit_value :: "char \<Rightarrow> nat option" where
  "digit_value c =
     (let n = (of_char c :: nat) in if 48 \<le> n \<and> n \<le> 57 then Some (n - 48) else None)"

fun parse_digits :: "nat \<Rightarrow> string \<Rightarrow> nat option" where
  "parse_digits n [] = Some n"
| "parse_digits n (c # cs) =
     (case digit_value c of None \<Rightarrow> None | Some d \<Rightarrow> parse_digits (n * 10 + d) cs)"

definition ParseUint :: "string \<Rightarrow> nat option" where
  "ParseUint s =
     (if s = [] then None
      else case parse_digits 0 s of
             None \<Rightarrow> None
           | Some n \<Rightarrow> if n < 2 ^ 64 then Some n else None)"

definition ParseInt :: "string \<Rightarrow> int64 option" where
  "ParseInt s =
     (case s of
        [] \<Rightarrow> None
      | c # cs \<Rightarrow>
          let neg = (c = CHR ''-'');
              s1 = (if c = CHR ''+'' \<or> c = CHR ''-'' then cs else s)
          in case ParseUint s1 of
               None \<Rightarrow> None
             | Some un \<Rightarrow>
                 if \<not> neg \<and> 2 ^ 63 \<le> un then None
                 else if neg \<and> 2 ^ 63 < un then None
                 else Some (if neg then - word_of_nat un else word_of_nat un))"

text \<open>
  A canonical base-10 integer: an optional minus sign, then decimal digits only,
  at least one, the first of them \<open>0\<close> only when it is the sole digit; no
  \<open>-0\<close>.
\<close>

definition is_digit :: "char \<Rightarrow> bool" where
  "is_digit c = (c \<in> set ''0123456789'')"

fun canonical_digits :: "string \<Rightarrow> bool" where
  "canonical_digits [] = False"
| "canonical_digits [c] = is_digit c"
| "canonical_digits (c # cs) = (is_digit c \<and> c \<noteq> CHR ''0'' \<and> list_all is_digit cs)"

fun canonical_decimal :: "string \<Rightarrow> bool" where
  "canonical_decimal [] = False"
| "canonical_decimal (c # cs) =
     (if c = CHR ''-'' then canonical_digits cs \<and> cs \<noteq> ''0'' else canonical_digits (c # cs))"

section \<open>Concurrent producers\<close>

text \<open>
  A producer goroutine calling \<open>Add(val)\<close> repeatedly. One call is two steps of the
  machine: the plain read of \<open>r.index\<close>, which selects the cell, and the
  \<open>atomic.AddInt64\<close> on that cell, which is indivisible. \<open>Idle n\<close> has \<open>n\<close> calls
  still to make; \<open>Loaded i n\<close> is inside a call, holds the index \<open>i\<close> it has read,
  and has \<open>n\<close> calls to make after this one.
\<close>

datatype producer = Idle nat | Loaded nat nat

text \<open>
  The scheduler lets producer \<open>k\<close> take its next step; a producer that has
  finished, or that does not exist, takes none. A producer inside a call
  completes it: \<open>RateCounter_Add\<close> runs on the cell of the index the producer has
  read, whatever \<open>r.index\<close> is by then, and leaves \<open>r.index\<close> as it is.
\<close>

fun producer_step ::
  "int64 \<Rightarrow> nat \<Rightarrow> RateCounter \<times> producer list \<Rightarrow> panic + RateCounter \<times> producer list" where
  "producer_step val k (r, ps) =
     (if k < length ps
      then
        (case ps ! k of
           Idle 0 \<Rightarrow> Inr (r, ps)
         | Idle (Suc n) \<Rightarrow> Inr (r, ps[k := Loaded (RateCounter.index r) n])
         | Loaded i n \<Rightarrow>
             and_then (RateCounter_Add val (r\<lparr>RateCounter.index := i\<rparr>))
               (\<lambda>r'. Inr (r'\<lparr>RateCounter.index := RateCounter.index r\<rparr>, ps[k := Idle n])))
      else Inr (r, ps))"

text \<open>An interleaving of the producers: the list of scheduling decisions, in order.\<close>

fun interleave ::
  "int64 \<Rightarrow> nat list \<Rightarrow> RateCounter \<times> producer list \<Rightarrow> panic + RateCounter \<times> producer list" where
  "interleave val [] s = Inr s"
| "interleave val (k # ks) s = and_then (producer_step val k s) (interleave val ks)"

fun remaining :: "producer \<Rightarrow> nat" where
  "remaining (Idle n) = n"
| "remaining (Loaded i n) = Suc n"

definition pending :: "producer list \<Rightarrow> nat" where
  "pending ps = sum_list (map remaining ps)"

text \<open>The number of steps the producers have still to take.\<close>

fun steps_left :: "producer \<Rightarrow> nat" where
  "steps_left (Idle n) = 2 * n"
| "steps_left (Loaded i n) = Suc (2 * n)"

definition steps :: "producer list \<Rightarrow> nat" where
  "steps ps = sum_list (map steps_left ps)"

section \<open>Invariants\<close>

text \<open>
  \<open>age g i j\<close>: how many rotation steps ago cell \<open>j\<close> of a ring of \<open>g\<close> cells was
  the active one, when cell \<open>i\<close> is active now.
\<close>

definition age :: "nat \<Rightarrow> nat \<Rightarrow> nat \<Rightarrow> nat" where
  "age g i j = (if j \<le> i then i - j else i + g - j)"

text \<open>
  The state of a windowed counter after the history \<open>es\<close>: the active index has
  advanced once per rotation step, every cell holds the deltas of the period in
  which it was last active, and the carry with the active cell make up the
  window.
\<close>

definition window_inv :: "nat \<Rightarrow> event list \<Rightarrow> RateCounter \<Rightarrow> bool" where
  "window_inv g es r \<longleftrightarrow>
     length (bins r) = g \<and> RateCounter.index r = rotations es mod g
     \<and> (\<forall>j<g. bins r ! j = period_sum (age g (RateCounter.index r) j) es)
     \<and> others r + bins r ! RateCounter.index r = window_sum g es"

text \<open>
  The state of a counter that no goroutine rotates, with producers at work on it:
  the active index is in range and every producer inside a call has read it; the
  calls made so far are all in the rate.
\<close>

fun holds_index :: "nat \<Rightarrow> producer \<Rightarrow> bool" where
  "holds_index i (Idle n) = True"
| "holds_index i (Loaded j n) = (j = i)"

definition producers_inv :: "int64 \<Rightarrow> nat \<Rightarrow> RateCounter \<Rightarrow> producer list \<Rightarrow> bool" where
  "producers_inv val calls r ps \<longleftrightarrow>
     RateCounter.index r < length (bins r)
     \<and> list_all (holds_index (RateCounter.index r)) ps
     \<and> pending ps \<le> calls
     \<and> others r + bins r ! RateCounter.index r = word_of_nat (calls - pending ps) * val"

section \<open>Basic facts\<close>

lemma and_then_Inr [simp]: "and_then (Inr a) f = f a"
  by (simp add: and_then_def)

lemma and_then_Inl [simp]: "and_then (Inl e) f = Inl e"
  by (simp add: and_then_def)

lemma RateCounter_elapse_NoTask: "RateCounter_elapse n (r, NoTask) = Inr (r, NoTask)"
  by (induction n) simp_all

lemma MovingAverage_elapse_NoTask: "MovingAverage_elapse n (r, NoTask) = Inr (r, NoTask)"
  by (induction n) simp_all

lemma next_index_differs:
  fixes i gran :: nat
  assumes "2 \<le> gran"
  shows "(i + 1) mod gran \<noteq> i"
proof (cases "i + 1 < gran")
  case True
  then show ?thesis by simp
next
  case False
  show ?thesis
  proof
    assume eq: "(i + 1) mod gran = i"
    have "(i + 1) mod gran < gran" using assms by simp
    with eq False have "i + 1 = gran" by simp
    with eq assms show False by simp
  qed
qed

section \<open>The window of a history\<close>

lemma rotations_snoc:
  "rotations (es @ [e]) = (case e of EvAdd d \<Rightarrow> rotations es | EvRotate \<Rightarrow> Suc (rotations es))"
  by (induction es rule: rotations.induct) (simp_all split: event.splits)

lemma period_sum_snoc_add:
  "period_sum k (es @ [EvAdd d]) = period_sum k es + (if k = 0 then d else 0)"
  by (induction es rule: rotations.induct) (simp_all add: rotations_snoc)

lemma period_sum_snoc_rotate:
  "period_sum k (es @ [EvRotate]) = (case k of 0 \<Rightarrow> 0 | Suc k' \<Rightarrow> period_sum k' es)"
  by (induction es rule: rotations.induct) (auto simp: rotations_snoc split: nat.splits)

lemma window_sum_snoc_add:
  "window_sum g (es @ [EvAdd d]) = window_sum g es + (if 0 < g then d else 0)"
  by (induction es rule: rotations.induct) (simp_all add: rotations_snoc)

lemma window_sum_snoc_rotate:
  "window_sum (Suc g) (es @ [EvRotate]) = window_sum g es"
  by (induction es rule: rotations.induct) (simp_all add: rotations_snoc)

lemma window_sum_Suc:
  "window_sum (Suc g) es = window_sum g es + period_sum g es"
  by (induction es rule: rotations.induct) (auto simp: less_Suc_eq)

lemma RateCounter_run_snoc:
  "RateCounter_run gran (es @ [e]) r =
     and_then (RateCounter_run gran es r) (RateCounter_event gran e)"
proof (induction es arbitrary: r)
  case Nil
  show ?case by (cases "RateCounter_event gran e r") simp_all
next
  case (Cons a es)
  show ?case by (cases "RateCounter_event gran a r") (simp_all add: Cons)
qed

lemma window_inv_add:
  assumes "2 \<le> g" and "window_inv g es r"
  shows "\<exists>r'. RateCounter_Add d r = Inr r' \<and> window_inv g (es @ [EvAdd d]) r'"
proof -
  let ?i = "RateCounter.index r"
  from assms(2) have len: "length (bins r) = g"
    and idx: "?i = rotations es mod g"
    and content: "\<And>j. j < g \<Longrightarrow> bins r ! j = period_sum (age g ?i j) es"
    and total: "others r + bins r ! ?i = window_sum g es"
    unfolding window_inv_def by blast+
  have i: "?i < g" using assms(1) idx by simp
  let ?r' = "r\<lparr>bins := (bins r)[?i := bins r ! ?i + d]\<rparr>"
  have step: "RateCounter_Add d r = Inr ?r'"
    using len i by (simp add: RateCounter_Add_def)
  have content': "bins ?r' ! j = period_sum (age g ?i j) (es @ [EvAdd d])" if "j < g" for j
  proof (cases "j = ?i")
    case True
    then show ?thesis
      using len i content[OF i] by (simp add: period_sum_snoc_add age_def)
  next
    case False
    then have "age g ?i j \<noteq> 0" using that i by (auto simp: age_def)
    then show ?thesis
      using False that content by (simp add: period_sum_snoc_add)
  qed
  have total': "others ?r' + bins ?r' ! ?i = window_sum g (es @ [EvAdd d])"
    using total len i assms(1) by (simp add: window_sum_snoc_add)
  have "window_inv g (es @ [EvAdd d]) ?r'"
    unfolding window_inv_def
  proof (intro conjI allI impI)
    show "length (bins ?r') = g" using len by simp
    show "RateCounter.index ?r' = rotations (es @ [EvAdd d]) mod g"
      using idx by (simp add: rotations_snoc)
    show "bins ?r' ! j = period_sum (age g (RateCounter.index ?r') j) (es @ [EvAdd d])"
      if "j < g" for j using content'[OF that] by simp
    show "others ?r' + bins ?r' ! RateCounter.index ?r' = window_sum g (es @ [EvAdd d])"
      using total' by simp
  qed
  with step show ?thesis by blast
qed

lemma window_inv_rotate:
  assumes "2 \<le> g" and "window_inv g es r"
  shows "\<exists>r'. rotation_step g r = Inr r' \<and> window_inv g (es @ [EvRotate]) r'"
proof -
  let ?i = "RateCounter.index r"
  let ?i' = "Suc ?i mod g"
  from assms(2) have len: "length (bins r) = g"
    and idx: "?i = rotations es mod g"
    and content: "\<And>j. j < g \<Longrightarrow> bins r ! j = period_sum (age g ?i j) es"
    and total: "others r + bins r ! ?i = window_sum g es"
    unfolding window_inv_def by blast+
  have i: "?i < g" using assms(1) idx by simp
  have i': "?i' < g" using assms(1) by simp
  have i'_eq: "?i' = (if Suc ?i = g then 0 else Suc ?i)"
    using i by (simp add: mod_if)
  have ne: "?i' \<noteq> ?i" using assms(1) i by (simp add: i'_eq)
  let ?r' = "r\<lparr>RateCounter.index := ?i', bins := (bins r)[?i' := 0],
                 others := others r + (bins r ! ?i - bins r ! ?i')\<rparr>"
  have step: "rotation_step g r = Inr ?r'"
    using assms(1) len i i' ne by (simp add: rotation_step_def Let_def)
  have idx': "?i' = rotations (es @ [EvRotate]) mod g"
    by (simp add: rotations_snoc idx mod_Suc_eq)
  have age_last: "age g ?i ?i' = g - 1"
    using i by (auto simp: i'_eq age_def)
  have content': "bins ?r' ! j = period_sum (age g ?i' j) (es @ [EvRotate])" if "j < g" for j
  proof (cases "j = ?i'")
    case True
    then show ?thesis using len i' by (simp add: period_sum_snoc_rotate age_def)
  next
    case False
    have "age g ?i' j = Suc (age g ?i j)"
      using False that i by (auto simp: i'_eq age_def split: if_splits)
    then show ?thesis using False that content by (simp add: period_sum_snoc_rotate)
  qed
  obtain g' where g': "g = Suc g'" using assms(1) by (cases g) simp_all
  have shrink: "window_sum g (es @ [EvRotate]) = window_sum g' es"
    unfolding g' by (rule window_sum_snoc_rotate)
  have "window_sum g es = window_sum g' es + period_sum g' es"
    unfolding g' by (rule window_sum_Suc)
  with shrink have "window_sum g (es @ [EvRotate]) = window_sum g es - period_sum (g - 1) es"
    by (simp add: g')
  also have "period_sum (g - 1) es = bins r ! ?i'"
    using content[OF i'] age_last by simp
  finally have total': "others ?r' + bins ?r' ! ?i' = window_sum g (es @ [EvRotate])"
    using total len i' by simp
  have "window_inv g (es @ [EvRotate]) ?r'"
    unfolding window_inv_def
  proof (intro conjI allI impI)
    show "length (bins ?r') = g" using len by simp
    show "RateCounter.index ?r' = rotations (es @ [EvRotate]) mod g" using idx' by simp
    show "bins ?r' ! j = period_sum (age g (RateCounter.index ?r') j) (es @ [EvRotate])"
      if "j < g" for j using content'[OF that] by simp
    show "others ?r' + bins ?r' ! RateCounter.index ?r' = window_sum g (es @ [EvRotate])"
      using total' by simp
  qed
  with step show ?thesis by blast
qed

lemma window_inv_init:
  assumes "0 < interval" and "2 \<le> gran"
  shows "window_inv (nat gran) [] (fst (NewRateCounterWithGranularity interval gran))"
  using assms by (simp add: window_inv_def NewRateCounterWithGranularity_def)

lemma window_inv_run:
  assumes "2 \<le> g" and "window_inv g [] r0"
  shows "\<exists>r. RateCounter_run g es r0 = Inr r \<and> window_inv g es r"
proof (induction es rule: rev_induct)
  case Nil
  show ?case using assms(2) by simp
next
  case (snoc e es)
  then obtain r where r: "RateCounter_run g es r0 = Inr r" "window_inv g es r" by blast
  show ?case
  proof (cases e)
    case (EvAdd d)
    with window_inv_add[OF assms(1) r(2), of d] r(1) show ?thesis
      by (auto simp: RateCounter_run_snoc)
  next
    case EvRotate
    with window_inv_rotate[OF assms(1) r(2)] r(1) show ?thesis
      by (auto simp: RateCounter_run_snoc)
  qed
qed

lemma rotations_replicate: "rotations (replicate n EvRotate) = n"
  by (induction n) simp_all

lemma window_sum_replicate: "window_sum g (replicate n EvRotate) = 0"
  by (induction n) simp_all

lemma period_sum_replicate: "period_sum k (replicate n EvRotate) = 0"
  by (induction n) simp_all

text \<open>While the ticker runs, each period is one rotation step.\<close>

lemma RateCounter_elapse_Rotation:
  assumes "0 < d"
  shows "RateCounter_elapse n (r, Rotation d g) =
           and_then (RateCounter_run g (replicate n EvRotate) r) (\<lambda>r'. Inr (r', Rotation d g))"
proof (induction n arbitrary: r)
  case 0
  show ?case by simp
next
  case (Suc n)
  show ?case
  proof (cases "rotation_step g r")
    case (Inl e)
    then show ?thesis using assms by simp
  next
    case (Inr r')
    then show ?thesis using assms Suc[of r'] by simp
  qed
qed

section \<open>Decimal rendering\<close>

declare format_uint.simps [simp del]

lemma digit_cases: "d < 10 \<Longrightarrow> d \<in> {0, 1, 2, 3, 4, 5, 6, 7, 8, 9::nat}"
  by auto

lemma digit_value_digit_char: "d < 10 \<Longrightarrow> digit_value (digit_char d) = Some d"
  using digit_cases[of d] by (auto simp: digit_value_def digit_char_def)

lemma is_digit_digit_char: "d < 10 \<Longrightarrow> is_digit (digit_char d)"
  using digit_cases[of d] by (auto simp: is_digit_def digit_char_def)

lemma digit_char_zero: "d < 10 \<Longrightarrow> digit_char d = CHR ''0'' \<longleftrightarrow> d = 0"
  using digit_cases[of d] by (auto simp: digit_char_def)

lemma is_digit_not_sign: "is_digit c \<Longrightarrow> c \<noteq> CHR ''-'' \<and> c \<noteq> CHR ''+''"
  by (auto simp: is_digit_def)

lemma parse_digits_append:
  "parse_digits n (xs @ ys) =
     (case parse_digits n xs of None \<Rightarrow> None | Some m \<Rightarrow> parse_digits m ys)"
  by (induction xs arbitrary: n) (simp_all split: option.splits)

lemma parse_digits_format_uint: "parse_digits 0 (format_uint u) = Some u"
proof (induction u rule: format_uint.induct)
  case (1 u)
  show ?case
  proof (cases "u < 10")
    case True
    then show ?thesis
      by (subst format_uint.simps) (simp add: digit_value_digit_char)
  next
    case False
    with 1 have "parse_digits 0 (format_uint (u div 10)) = Some (u div 10)" by simp
    with False show ?thesis
      by (subst format_uint.simps) (simp add: parse_digits_append digit_value_digit_char)
  qed
qed

lemma canonical_digits_iff:
  "canonical_digits s \<longleftrightarrow>
     s \<noteq> [] \<and> list_all is_digit s \<and> (hd s = CHR ''0'' \<longrightarrow> s = ''0'')"
  by (induction s rule: canonical_digits.induct) auto

lemma format_uint_digits:
  "format_uint u \<noteq> [] \<and> list_all is_digit (format_uint u)
   \<and> (hd (format_uint u) = CHR ''0'' \<longrightarrow> u = 0)"
proof (induction u rule: format_uint.induct)
  case (1 u)
  show ?case
  proof (cases "u < 10")
    case True
    then show ?thesis
      by (subst (1 2 3) format_uint.simps) (simp add: is_digit_digit_char digit_char_zero)
  next
    case False
    with 1 have ih: "format_uint (u div 10) \<noteq> []" "list_all is_digit (format_uint (u div 10))"
      "hd (format_uint (u div 10)) = CHR ''0'' \<longrightarrow> u div 10 = 0" by simp_all
    from False have "u div 10 \<noteq> 0" by simp
    with ih False show ?thesis
      by (subst (1 2 3) format_uint.simps) (simp add: is_digit_digit_char)
  qed
qed

lemma format_uint_zero: "format_uint u = ''0'' \<longleftrightarrow> u = 0"
proof
  assume "format_uint u = ''0''"
  then have "parse_digits 0 (format_uint u) = parse_digits 0 ''0''" by simp
  then show "u = 0" by (simp add: parse_digits_format_uint digit_value_def)
next
  assume "u = 0"
  then show "format_uint u = ''0''" by (simp add: format_uint.simps digit_char_def)
qed

lemma canonical_format_uint: "canonical_digits (format_uint u)"
  using format_uint_digits[of u] by (auto simp: canonical_digits_iff format_uint_zero)

lemma ParseUint_format_uint: "u < 2 ^ 64 \<Longrightarrow> ParseUint (format_uint u) = Some u"
  using format_uint_digits[of u] by (simp add: ParseUint_def parse_digits_format_uint)

lemma uint_eq_sint_mod:
  fixes v :: int64
  shows "uint v = sint v mod 2 ^ 64"
  by (simp add: uint_sint take_bit_eq_mod)

lemma sint_int64_range:
  fixes v :: int64
  shows "- (2 ^ 63) \<le> sint v" and "sint v < 2 ^ 63"
  using sint_ge[of v] sint_lt[of v] by simp_all

lemma nonneg_magnitude:
  fixes v :: int64
  assumes "0 \<le> sint v"
  shows "unat v < 2 ^ 63"
proof -
  have "uint v = sint v"
    using assms sint_int64_range(2)[of v] by (simp add: uint_eq_sint_mod)
  then have "int (unat v) < int (2 ^ 63)"
    using sint_int64_range(2)[of v] by simp
  then show ?thesis by (simp only: of_nat_less_iff)
qed

lemma neg_magnitude:
  fixes v :: int64
  assumes "sint v < 0"
  shows "unat (- v) \<le> 2 ^ 63"
proof -
  have "uint (- v) = (- sint v) mod 2 ^ 64"
  proof -
    have "- v = word_of_int (- sint v)" by simp
    then have "uint (- v) = uint (word_of_int (- sint v) :: int64)" by simp
    then show ?thesis by (simp only: uint_word_of_int take_bit_eq_mod len_num1 len_bit0 mult_2 ) simp
  qed
  also have "\<dots> = - sint v"
    using assms sint_int64_range(1)[of v] by simp
  finally have "int (unat (- v)) \<le> int (2 ^ 63)"
    using sint_int64_range(1)[of v] by simp
  then show ?thesis by (simp only: of_nat_le_iff)
qed

section \<open>Constructors\<close>

text \<open>
  Claim C10. \<open>NewCounter()\<close> is \<open>NewRateCounterWithGranularity(0, 1)\<close> and
  \<open>NewAverage()\<close> is \<open>NewMovingAverageWithGranularity(0, 1)\<close>: what they return
  has a single bucket holding zero, a zero carry, and no rotation goroutine, so
  the passage of ticker periods leaves it as it is.
\<close>

theorem convenience_constructors_degenerate:
  "NewCounter = NewRateCounterWithGranularity 0 1
   \<and> NewAverage = NewMovingAverageWithGranularity 0 1
   \<and> NewCounter = (\<lparr>others = 0, bins = [0], index = 0\<rparr>, NoTask)
   \<and> NewAverage =
       (\<lparr>otherSums = 0, otherCounts = 0, sums = [0], counts = [0], index = 0\<rparr>, NoTask)
   \<and> RateCounter_elapse n NewCounter = Inr NewCounter
   \<and> MovingAverage_elapse n NewAverage = Inr NewAverage"
  by (simp add: NewCounter_def NewAverage_def NewRateCounterWithGranularity_def
      NewMovingAverageWithGranularity_def RateCounter_elapse_NoTask
      MovingAverage_elapse_NoTask)

section \<open>The zero guard of Average\<close>

text \<open>
  Claim C6. \<open>Average()\<close> never divides by zero: when the count of the active
  bucket plus the carried count is zero it returns zero, and it divides only
  otherwise; a freshly constructed average returns zero.
\<close>

theorem average_no_division_by_zero:
  "Average r \<noteq> Inl DivideByZero
   \<and> Average r =
       (if index r < length (sums r) \<and> index r < length (counts r)
        then if counts r ! index r + otherCounts r = 0 then Inr 0
             else Inr (word_of_int
                        (sint (sums r ! index r + otherSums r)
                         sdiv sint (counts r ! index r + otherCounts r)))
        else Inl IndexOutOfRange)
   \<and> Average (fst (NewMovingAverageWithGranularity interval gran)) = Inr 0
   \<and> Average (fst NewAverage) = Inr 0"
  by (simp add: Average_def int64_div_def Let_def NewMovingAverageWithGranularity_def
      NewAverage_def)

section \<open>The rotation step and the tick procedure\<close>

text \<open>
  Claim C3. For a granularity of at least two, one iteration of the rotation
  loop of either type is the four-step tick procedure: the cell \<open>i\<close> that was
  active is not the cell that is swapped to zero, so reading it after the swap
  gives the value it held before.
\<close>

theorem rotation_step_refines_tick_procedure:
  assumes "2 \<le> gran"
  shows "rotation_step gran r = spec_rotation_step gran r
         \<and> average_rotation_step gran m = spec_average_rotation_step gran m
         \<and> (RateCounter.index r + 1) mod gran \<noteq> RateCounter.index r
         \<and> (index m + 1) mod gran \<noteq> index m"
proof -
  note ne = next_index_differs[OF assms]
  have "rotation_step gran r = spec_rotation_step gran r"
    using ne[of "RateCounter.index r"]
    by (simp add: rotation_step_def spec_rotation_step_def Let_def)
  moreover have "average_rotation_step gran m = spec_average_rotation_step gran m"
    using ne[of "index m"]
    by (simp add: average_rotation_step_def spec_average_rotation_step_def Let_def)
  ultimately show ?thesis using ne by simp
qed

theorem rotation_step_refines_tick_procedure_witness:
  "(2::nat) \<le> 4
   \<and> rotation_step 4 \<lparr>others = 5, bins = [1, 2, 3, 4], index = 3\<rparr>
       = spec_rotation_step 4 \<lparr>others = 5, bins = [1, 2, 3, 4], index = 3\<rparr>
   \<and> average_rotation_step 4
        \<lparr>otherSums = 5, otherCounts = 2, sums = [1, 2, 3, 4], counts = [1, 1, 1, 1], index = 3\<rparr>
       = spec_average_rotation_step 4
        \<lparr>otherSums = 5, otherCounts = 2, sums = [1, 2, 3, 4], counts = [1, 1, 1, 1], index = 3\<rparr>"
  using rotation_step_refines_tick_procedure
    [of 4 "\<lparr>others = 5, bins = [1, 2, 3, 4], index = 3\<rparr>"
      "\<lparr>otherSums = 5, otherCounts = 2, sums = [1, 2, 3, 4], counts = [1, 1, 1, 1], index = 3\<rparr>"]
  by simp

text \<open>
  With a single bucket the two differ: the swap would clear the very cell that
  is read afterwards. No goroutine is started with a granularity below two.
\<close>

lemma rotation_orders_differ_for_one_bucket:
  "rotation_step 1 \<lparr>others = 0, bins = [5], index = 0\<rparr>
     = Inr \<lparr>others = - 5, bins = [0], index = 0\<rparr>
   \<and> spec_rotation_step 1 \<lparr>others = 0, bins = [5], index = 0\<rparr>
     = Inr \<lparr>others = 0, bins = [0], index = 0\<rparr>"
  by (simp add: rotation_step_def spec_rotation_step_def Let_def)

section \<open>Text rendering\<close>

lemma FormatInt_roundtrip:
  "ParseInt (FormatInt v) = Some v \<and> canonical_decimal (FormatInt v)"
proof (cases "sint v < 0")
  case True
  have lt: "unat (- v) < 2 ^ 64" using unsigned_less[of "- v", where 'a = nat] by simp
  have nz: "- v \<noteq> 0" using True by auto
  then have "unat (- v) \<noteq> 0" by (simp add: unat_eq_0)
  then have "format_uint (unat (- v)) \<noteq> ''0''" by (simp add: format_uint_zero)
  then have "canonical_decimal (FormatInt v)"
    using True by (simp add: FormatInt_def canonical_format_uint)
  moreover have "ParseInt (FormatInt v) = Some v"
    using True neg_magnitude[OF True] lt
    by (simp add: FormatInt_def ParseInt_def ParseUint_format_uint)
  ultimately show ?thesis by simp
next
  case False
  have lt: "unat v < 2 ^ 64" using unsigned_less[of v, where 'a = nat] by simp
  obtain c cs where fmt: "format_uint (unat v) = c # cs"
    using format_uint_digits[of "unat v"] by (cases "format_uint (unat v)") auto
  then have "is_digit c" using format_uint_digits[of "unat v"] by simp
  then have c: "c \<noteq> CHR ''-''" "c \<noteq> CHR ''+''" using is_digit_not_sign by blast+
  have "canonical_decimal (FormatInt v)"
    using False c canonical_format_uint[of "unat v"] by (simp add: FormatInt_def fmt)
  moreover have "ParseUint (c # cs) = Some (unat v)"
    using ParseUint_format_uint[OF lt] by (simp add: fmt)
  then have "ParseInt (FormatInt v) = Some v"
    using False c nonneg_magnitude[of v] by (simp add: FormatInt_def ParseInt_def fmt)
  ultimately show ?thesis by simp
qed

text \<open>
  Claim C7. For every \<open>int64\<close> value, hence for every value \<open>Rate()\<close> or
  \<open>Average()\<close> can return, the rendering is a canonical base-10 integer (an
  optional minus sign, then digits only, no leading zero, never empty), and
  parsing it as a decimal integer gives the value back; so it is for whatever
  \<open>String()\<close> of a counter or of an average returns.
\<close>

theorem String_roundtrip:
  "ParseInt (FormatInt v) = Some v \<and> canonical_decimal (FormatInt v)
   \<and> (RateCounter_String r = Inr s \<longrightarrow>
        canonical_decimal s \<and> (\<exists>v. Rate r = Inr v \<and> ParseInt s = Some v))
   \<and> (MovingAverage_String m = Inr t \<longrightarrow>
        canonical_decimal t \<and> (\<exists>v. Average m = Inr v \<and> ParseInt t = Some v))"
proof -
  have rate: "canonical_decimal s \<and> (\<exists>v. Rate r = Inr v \<and> ParseInt s = Some v)"
    if "RateCounter_String r = Inr s"
  proof (cases "Rate r")
    case (Inl e)
    with that show ?thesis by (simp add: RateCounter_String_def)
  next
    case (Inr v)
    with that have "s = FormatInt v" by (simp add: RateCounter_String_def)
    with Inr FormatInt_roundtrip[of v] show ?thesis by simp
  qed
  have average: "canonical_decimal t \<and> (\<exists>v. Average m = Inr v \<and> ParseInt t = Some v)"
    if "MovingAverage_String m = Inr t"
  proof (cases "Average m")
    case (Inl e)
    with that show ?thesis by (simp add: MovingAverage_String_def)
  next
    case (Inr v)
    with that have "t = FormatInt v" by (simp add: MovingAverage_String_def)
    with Inr FormatInt_roundtrip[of v] show ?thesis by simp
  qed
  from FormatInt_roundtrip[of v] rate average show ?thesis by blast
qed

theorem String_roundtrip_witness:
  "RateCounter_String \<lparr>others = 3, bins = [4, - 15], index = 1\<rparr> = Inr ''-12''
   \<and> canonical_decimal ''-12'' \<and> ParseInt ''-12'' = Some (- 12)
   \<and> MovingAverage_String
        \<lparr>otherSums = 0, otherCounts = 0, sums = [60], counts = [3], index = 0\<rparr> = Inr ''20''
   \<and> canonical_decimal ''20'' \<and> ParseInt ''20'' = Some 20"
proof -
  let ?r = "\<lparr>others = 3, bins = [4, - 15], index = 1\<rparr>"
  let ?m = "\<lparr>otherSums = 0, otherCounts = 0, sums = [60], counts = [3], index = 0\<rparr>"
  have rate: "Rate ?r = Inr (- 12)" by (simp add: Rate_def)
  have average: "Average ?m = Inr 20"
    by (simp add: Average_def int64_div_def signed_divide_int_def)
  have s: "RateCounter_String ?r = Inr ''-12''"
    by (simp add: RateCounter_String_def Rate_def FormatInt_def format_uint.simps digit_char_def)
  have t: "MovingAverage_String ?m = Inr ''20''"
    by (simp add: MovingAverage_String_def Average_def int64_div_def signed_divide_int_def
        FormatInt_def format_uint.simps digit_char_def)
  note inst = String_roundtrip[of 0 ?r "''-12''" ?m "''20''"]
  from inst s rate have "canonical_decimal ''-12'' \<and> ParseInt ''-12'' = Some (- 12)"
    by auto
  moreover from inst t average have "canonical_decimal ''20'' \<and> ParseInt ''20'' = Some 20"
    by auto
  ultimately show ?thesis using s t by blast
qed

section \<open>Sequences of Add\<close>

lemma sint_word_of_int_in_range:
  assumes "- (2 ^ 63) \<le> k" and "k < 2 ^ 63"
  shows "sint (word_of_int k :: int64) = k"
  using assms by (simp add: signed_of_int signed_take_bit_int_eq_self)

lemma sint_word_of_nat_in_range:
  assumes "k < 2 ^ 63"
  shows "sint (word_of_nat k :: int64) = int k"
proof -
  have "int k < int (2 ^ 63)" using assms by (simp only: of_nat_less_iff)
  then have "int k < 2 ^ 63" by simp
  with sint_word_of_int_in_range[of "int k"] show ?thesis by simp
qed

lemma sum_list_int64: "(sum_list vs :: int64) = word_of_int (\<Sum>v\<leftarrow>vs. sint v)"
  by (induction vs) simp_all

lemma RateCounter_adds_sum:
  "RateCounter.index r < length (bins r) \<Longrightarrow>
   RateCounter_adds ds r =
     Inr (r\<lparr>bins := (bins r)[RateCounter.index r := bins r ! RateCounter.index r + sum_list ds]\<rparr>)"
proof (induction ds arbitrary: r)
  case Nil
  then show ?case by simp
next
  case (Cons d ds)
  then show ?case by (simp add: RateCounter_Add_def ac_simps)
qed

lemma MovingAverage_adds_sum:
  "index r < length (sums r) \<Longrightarrow> index r < length (counts r) \<Longrightarrow>
   MovingAverage_adds ds r =
     Inr (r\<lparr>sums := (sums r)[index r := sums r ! index r + sum_list ds],
           counts := (counts r)[index r := counts r ! index r + word_of_nat (length ds)]\<rparr>)"
proof (induction ds arbitrary: r)
  case Nil
  then show ?case by simp
next
  case (Cons d ds)
  then show ?case by (simp add: MovingAverage_Add_def Let_def ac_simps)
qed

lemma NewRateCounter_shape:
  "\<exists>n. fst (NewRateCounterWithGranularity interval gran)
         = \<lparr>others = 0, bins = replicate (Suc n) 0, index = 0\<rparr>"
proof (cases "interval \<le> 0 \<or> gran \<le> 1")
  case True
  then have "fst (NewRateCounterWithGranularity interval gran)
         = \<lparr>others = 0, bins = replicate (Suc 0) 0, index = 0\<rparr>"
    by (simp add: NewRateCounterWithGranularity_def)
  then show ?thesis by blast
next
  case False
  then obtain n where "nat gran = Suc n" by (cases "nat gran") auto
  with False have "fst (NewRateCounterWithGranularity interval gran)
         = \<lparr>others = 0, bins = replicate (Suc n) 0, index = 0\<rparr>"
    by (simp add: NewRateCounterWithGranularity_def)
  then show ?thesis by blast
qed

lemma NewMovingAverage_shape:
  "\<exists>n. fst (NewMovingAverageWithGranularity interval gran)
         = \<lparr>otherSums = 0, otherCounts = 0, sums = replicate (Suc n) 0,
            counts = replicate (Suc n) 0, index = 0\<rparr>"
proof (cases "interval \<le> 0 \<or> gran \<le> 1")
  case True
  then have "fst (NewMovingAverageWithGranularity interval gran)
         = \<lparr>otherSums = 0, otherCounts = 0, sums = replicate (Suc 0) 0,
            counts = replicate (Suc 0) 0, index = 0\<rparr>"
    by (simp add: NewMovingAverageWithGranularity_def)
  then show ?thesis by blast
next
  case False
  then obtain n where "nat gran = Suc n" by (cases "nat gran") auto
  with False have "fst (NewMovingAverageWithGranularity interval gran)
         = \<lparr>otherSums = 0, otherCounts = 0, sums = replicate (Suc n) 0,
            counts = replicate (Suc n) 0, index = 0\<rparr>"
    by (simp add: NewMovingAverageWithGranularity_def)
  then show ?thesis by blast
qed

lemma fresh_average_of_adds:
  "and_then (MovingAverage_adds vs (fst (NewMovingAverageWithGranularity interval gran))) Average
     = (if (word_of_nat (length vs) :: int64) = 0 then Inr 0
        else int64_div (sum_list vs) (word_of_nat (length vs)))"
proof -
  obtain n where "fst (NewMovingAverageWithGranularity interval gran)
         = \<lparr>otherSums = 0, otherCounts = 0, sums = replicate (Suc n) 0,
            counts = replicate (Suc n) 0, index = 0\<rparr>"
    using NewMovingAverage_shape by blast
  then show ?thesis
    by (simp add: MovingAverage_adds_sum Average_def Let_def)
qed

lemma sdiv_in_range:
  fixes s :: int
  assumes "- (2 ^ 63) \<le> s" and "s < 2 ^ 63" and "0 < n"
  shows "- (2 ^ 63) \<le> s sdiv n \<and> s sdiv n < 2 ^ 63"
proof -
  consider "s = 0" | "0 < s" | "s < 0" by linarith
  then show ?thesis
  proof cases
    case 1
    then show ?thesis by (simp add: signed_divide_int_def)
  next
    case 2
    then have "s sdiv n = s div n" using assms(3) by (simp add: signed_divide_int_def)
    moreover have "s div n \<le> s" using zdiv_mono2[of s 1 n] 2 assms(3) by simp
    moreover have "0 \<le> s div n" using 2 assms(3) by (simp add: pos_imp_zdiv_nonneg_iff)
    ultimately show ?thesis using assms(2) by simp
  next
    case 3
    then have eq: "s sdiv n = - ((- s) div n)"
      using assms(3) by (simp add: signed_divide_int_def)
    have "(- s) div n \<le> - s" using zdiv_mono2[of "- s" 1 n] 3 assms(3) by simp
    moreover have "0 \<le> (- s) div n" using 3 assms(3) by (simp add: pos_imp_zdiv_nonneg_iff)
    ultimately show ?thesis using assms(1) eq by simp
  qed
qed

text \<open>
  Claim C5. On a moving average, \<open>Add(value)\<close> adds \<open>value\<close> to the sum of the
  active bucket and one to its count. After the samples \<open>vs\<close> have been added to
  a fresh average, with no rotation in between, \<open>Average()\<close> is zero when the
  count is zero and otherwise the quotient of their sum by their number,
  truncated towards zero, in \<open>int64\<close> arithmetic; when the sum and the number of
  the samples fit \<open>int64\<close> it is the truncated quotient of the integers. After
  \<open>Add(10)\<close>, \<open>Add(20)\<close>, \<open>Add(30)\<close> it is 20.
\<close>

theorem average_of_recorded_samples:
  "(index m < length (sums m) \<and> index m < length (counts m) \<longrightarrow>
      MovingAverage_Add v m =
        Inr (m\<lparr>sums := (sums m)[index m := sums m ! index m + v],
              counts := (counts m)[index m := counts m ! index m + 1]\<rparr>))
   \<and> and_then (MovingAverage_adds vs (fst (NewMovingAverageWithGranularity interval gran)))
        Average
       = Inr (if (word_of_nat (length vs) :: int64) = 0 then 0
              else word_of_int (sint (sum_list vs) sdiv sint (word_of_nat (length vs) :: int64)))
   \<and> (vs \<noteq> [] \<and> length vs < 2 ^ 63
        \<and> - (2 ^ 63) \<le> (\<Sum>v\<leftarrow>vs. sint v) \<and> (\<Sum>v\<leftarrow>vs. sint v) < 2 ^ 63 \<longrightarrow>
        (\<exists>a. and_then
                (MovingAverage_adds vs (fst (NewMovingAverageWithGranularity interval gran)))
                Average = Inr a
            \<and> sint a = (\<Sum>v\<leftarrow>vs. sint v) sdiv int (length vs)))
   \<and> and_then (MovingAverage_adds [10, 20, 30]
                 (fst (NewMovingAverageWithGranularity interval gran))) Average = Inr 20"
proof -
  let ?fresh = "fst (NewMovingAverageWithGranularity interval gran)"
  let ?n = "word_of_nat (length vs) :: int64"
  have one: "index m < length (sums m) \<and> index m < length (counts m) \<longrightarrow>
      MovingAverage_Add v m =
        Inr (m\<lparr>sums := (sums m)[index m := sums m ! index m + v],
              counts := (counts m)[index m := counts m ! index m + 1]\<rparr>)"
    by (simp add: MovingAverage_Add_def Let_def)
  have two: "and_then (MovingAverage_adds vs ?fresh) Average
       = Inr (if ?n = 0 then 0 else word_of_int (sint (sum_list vs) sdiv sint ?n))"
    by (simp add: fresh_average_of_adds int64_div_def)
  have three: "\<exists>a. and_then (MovingAverage_adds vs ?fresh) Average = Inr a
            \<and> sint a = (\<Sum>v\<leftarrow>vs. sint v) sdiv int (length vs)"
    if ne: "vs \<noteq> []" and len: "length vs < 2 ^ 63"
      and lo: "- (2 ^ 63) \<le> (\<Sum>v\<leftarrow>vs. sint v)" and hi: "(\<Sum>v\<leftarrow>vs. sint v) < 2 ^ 63"
  proof -
    let ?s = "\<Sum>v\<leftarrow>vs. sint v"
    have n: "sint ?n = int (length vs)" using len by (rule sint_word_of_nat_in_range)
    have pos: "0 < int (length vs)" using ne by simp
    with n have nz: "?n \<noteq> 0" by auto
    have s: "sint (sum_list vs :: int64) = ?s"
      using lo hi by (simp only: sum_list_int64 sint_word_of_int_in_range)
    have "sint (word_of_int (?s sdiv int (length vs)) :: int64) = ?s sdiv int (length vs)"
      using sdiv_in_range[OF lo hi pos] by (simp only: sint_word_of_int_in_range)
    with two nz n s show ?thesis by simp
  qed
  have four: "and_then (MovingAverage_adds [10, 20, 30] ?fresh) Average = Inr 20"
    by (simp only: fresh_average_of_adds) (simp add: int64_div_def signed_divide_int_def)
  from one two three four show ?thesis by blast
qed

theorem average_of_recorded_samples_witness:
  "index (fst NewAverage) < length (sums (fst NewAverage))
   \<and> index (fst NewAverage) < length (counts (fst NewAverage))
   \<and> MovingAverage_Add 10 (fst NewAverage)
       = Inr \<lparr>otherSums = 0, otherCounts = 0, sums = [10], counts = [1], index = 0\<rparr>
   \<and> [10, 20, 35 :: int64] \<noteq> [] \<and> length [10, 20, 35 :: int64] < 2 ^ 63
   \<and> - (2 ^ 63) \<le> (\<Sum>v\<leftarrow>[10, 20, 35 :: int64]. sint v)
   \<and> (\<Sum>v\<leftarrow>[10, 20, 35 :: int64]. sint v) < 2 ^ 63
   \<and> (\<exists>a. and_then (MovingAverage_adds [10, 20, 35] (fst (NewMovingAverageWithGranularity 0 1)))
              Average = Inr a
          \<and> sint a = 21)"
proof -
  let ?vs = "[10, 20, 35 :: int64]"
  have h1: "index (fst NewAverage) < length (sums (fst NewAverage))
      \<and> index (fst NewAverage) < length (counts (fst NewAverage))"
    by (simp add: NewAverage_def NewMovingAverageWithGranularity_def)
  have h2: "?vs \<noteq> [] \<and> length ?vs < 2 ^ 63
      \<and> - (2 ^ 63) \<le> (\<Sum>v\<leftarrow>?vs. sint v) \<and> (\<Sum>v\<leftarrow>?vs. sint v) < 2 ^ 63"
    by simp
  note inst = average_of_recorded_samples[of "fst NewAverage" 10 ?vs 0 1]
  from inst h1 have "MovingAverage_Add 10 (fst NewAverage)
      = Inr ((fst NewAverage)\<lparr>sums := (sums (fst NewAverage))[index (fst NewAverage) :=
                sums (fst NewAverage) ! index (fst NewAverage) + 10],
              counts := (counts (fst NewAverage))[index (fst NewAverage) :=
                counts (fst NewAverage) ! index (fst NewAverage) + 1]\<rparr>)"
    by blast
  then have add: "MovingAverage_Add 10 (fst NewAverage)
       = Inr \<lparr>otherSums = 0, otherCounts = 0, sums = [10], counts = [1], index = 0\<rparr>"
    by (simp add: NewAverage_def NewMovingAverageWithGranularity_def)
  from inst h2 obtain a where
    "and_then (MovingAverage_adds ?vs (fst (NewMovingAverageWithGranularity 0 1))) Average = Inr a"
    and "sint a = (\<Sum>v\<leftarrow>?vs. sint v) sdiv int (length ?vs)" by blast
  moreover have "(\<Sum>v\<leftarrow>?vs. sint v) sdiv int (length ?vs) = 21"
    by (simp add: signed_divide_int_def)
  ultimately have "\<exists>a. and_then (MovingAverage_adds ?vs
      (fst (NewMovingAverageWithGranularity 0 1))) Average = Inr a \<and> sint a = 21"
    by auto
  with h1 h2 add show ?thesis by blast
qed

text \<open>
  Claim C2. Constructed with \<open>interval \<le> 0\<close> or \<open>gran \<le> 1\<close>, a counter or an
  average has exactly one bucket and no rotation goroutine. After \<open>k\<close> successive
  calls \<open>Add(1)\<close> on such a counter \<open>Rate()\<close> is \<open>k\<close>, and the passage of any
  number of ticker periods leaves the counter, hence the rate, as it is.
\<close>

theorem cumulative_mode_never_resets:
  assumes "interval \<le> 0 \<or> gran \<le> 1"
  shows "NewRateCounterWithGranularity interval gran
           = (\<lparr>others = 0, bins = [0], index = 0\<rparr>, NoTask)
         \<and> NewMovingAverageWithGranularity interval gran
           = (\<lparr>otherSums = 0, otherCounts = 0, sums = [0], counts = [0], index = 0\<rparr>, NoTask)
         \<and> (\<exists>r. RateCounter_adds (replicate k 1)
                   (fst (NewRateCounterWithGranularity interval gran)) = Inr r
              \<and> Rate r = Inr (word_of_nat k)
              \<and> RateCounter_elapse n (r, snd (NewRateCounterWithGranularity interval gran))
                  = Inr (r, NoTask))
         \<and> (k < 2 ^ 63 \<longrightarrow> sint (word_of_nat k :: int64) = int k)"
proof -
  let ?fresh = "\<lparr>others = 0, bins = [0], index = 0\<rparr>"
  let ?r = "\<lparr>others = 0, bins = [word_of_nat k], index = 0\<rparr>"
  have new: "NewRateCounterWithGranularity interval gran = (?fresh, NoTask)"
    using assms by (simp add: NewRateCounterWithGranularity_def)
  have newa: "NewMovingAverageWithGranularity interval gran
           = (\<lparr>otherSums = 0, otherCounts = 0, sums = [0], counts = [0], index = 0\<rparr>, NoTask)"
    using assms by (simp add: NewMovingAverageWithGranularity_def)
  have "RateCounter_adds (replicate k 1) ?fresh = Inr ?r"
    by (simp add: RateCounter_adds_sum sum_list_replicate)
  moreover have "Rate ?r = Inr (word_of_nat k)" by (simp add: Rate_def)
  moreover have "RateCounter_elapse n (?r, NoTask) = Inr (?r, NoTask)"
    by (rule RateCounter_elapse_NoTask)
  ultimately have run: "\<exists>r. RateCounter_adds (replicate k 1)
                   (fst (NewRateCounterWithGranularity interval gran)) = Inr r
              \<and> Rate r = Inr (word_of_nat k)
              \<and> RateCounter_elapse n (r, snd (NewRateCounterWithGranularity interval gran))
                  = Inr (r, NoTask)"
    unfolding new fst_conv snd_conv by blast
  have "k < 2 ^ 63 \<longrightarrow> sint (word_of_nat k :: int64) = int k"
    using sint_word_of_nat_in_range by blast
  with new newa run show ?thesis by blast
qed

theorem cumulative_mode_never_resets_witness:
  "((0::int) \<le> 0 \<or> (1::int) \<le> 1)
   \<and> (\<exists>r. RateCounter_adds (replicate 37 1) (fst (NewRateCounterWithGranularity 0 1)) = Inr r
          \<and> Rate r = Inr 37
          \<and> RateCounter_elapse 1000 (r, snd (NewRateCounterWithGranularity 0 1)) = Inr (r, NoTask))
   \<and> (37::nat) < 2 ^ 63 \<and> sint (37 :: int64) = 37"
proof -
  have h: "(0::int) \<le> 0 \<or> (1::int) \<le> 1" by simp
  from cumulative_mode_never_resets[OF h, of 37 1000]
  obtain r where "RateCounter_adds (replicate 37 1) (fst (NewRateCounterWithGranularity 0 1)) = Inr r"
    and "Rate r = Inr (word_of_nat 37)"
    and "RateCounter_elapse 1000 (r, snd (NewRateCounterWithGranularity 0 1)) = Inr (r, NoTask)"
    by blast
  then have "\<exists>r. RateCounter_adds (replicate 37 1) (fst (NewRateCounterWithGranularity 0 1)) = Inr r
          \<and> Rate r = Inr 37
          \<and> RateCounter_elapse 1000 (r, snd (NewRateCounterWithGranularity 0 1)) = Inr (r, NoTask)"
    by auto
  then show ?thesis by simp
qed

text \<open>
  Claim C9. \<open>Add\<close> does not validate its argument: any \<open>int64\<close> delta, zero and
  negative ones included, is added unchanged to the active bucket and shows in
  the rate. After \<open>Add(-1)\<close> on a fresh counter \<open>Rate()\<close> is \<open>-1\<close> and its
  rendering is \<open>-1\<close>, with a leading minus sign.
\<close>

theorem add_is_unvalidated:
  "(RateCounter.index r < length (bins r) \<longrightarrow>
      RateCounter_Add val r =
        Inr (r\<lparr>bins := (bins r)[RateCounter.index r := bins r ! RateCounter.index r + val]\<rparr>)
      \<and> and_then (RateCounter_Add val r) Rate
          = Inr (others r + bins r ! RateCounter.index r + val))
   \<and> and_then (RateCounter_Add val (fst (NewRateCounterWithGranularity interval gran))) Rate
       = Inr val
   \<and> and_then (RateCounter_Add (- 1) (fst (NewRateCounterWithGranularity interval gran))) Rate
       = Inr (- 1)
   \<and> sint (- 1 :: int64) = - 1
   \<and> and_then (RateCounter_Add (- 1) (fst (NewRateCounterWithGranularity interval gran)))
        RateCounter_String = Inr ''-1''"
proof -
  obtain n where new: "fst (NewRateCounterWithGranularity interval gran)
         = \<lparr>others = 0, bins = replicate (Suc n) 0, index = 0\<rparr>"
    using NewRateCounter_shape by blast
  have "FormatInt (- 1) = ''-1''"
    by (simp add: FormatInt_def format_uint.simps digit_char_def)
  then show ?thesis
    by (simp add: new RateCounter_Add_def Rate_def RateCounter_String_def)
qed

theorem add_is_unvalidated_witness:
  "RateCounter.index \<lparr>others = 3, bins = [4, 5], index = 1\<rparr>
     < length (bins \<lparr>others = 3, bins = [4, 5], index = 1\<rparr>)
   \<and> RateCounter_Add (- 20) \<lparr>others = 3, bins = [4, 5], index = 1\<rparr>
       = Inr \<lparr>others = 3, bins = [4, - 15], index = 1\<rparr>
   \<and> and_then (RateCounter_Add (- 20) \<lparr>others = 3, bins = [4, 5], index = 1\<rparr>) Rate
       = Inr (- 12)"
  using add_is_unvalidated[of "\<lparr>others = 3, bins = [4, 5], index = 1\<rparr>" "- 20" 0 1]
  by (simp add: Rate_def)

section \<open>The rate of a windowed counter\<close>

text \<open>
  Claim C1. \<open>Rate()\<close> is the value of the active bucket plus the carry, and
  \<open>Average()\<close> is computed from the active bucket's sum and count plus the
  carried sum and count. Hence, for a counter in windowed mode and any
  sequential history of calls of \<open>Add\<close> and rotation steps, \<open>Rate()\<close> is the sum
  of the deltas that fewer than \<open>gran\<close> rotation steps have followed: the active
  bucket holds those of the current period, the carry those of the \<open>gran - 1\<close>
  periods before it, and older ones are excluded.
\<close>

theorem rate_is_window_sum:
  "Rate r =
     (if RateCounter.index r < length (bins r)
      then Inr (bins r ! RateCounter.index r + others r) else Inl IndexOutOfRange)
   \<and> Average m =
       (if index m < length (sums m) \<and> index m < length (counts m)
        then if counts m ! index m + otherCounts m = 0 then Inr 0
             else int64_div (sums m ! index m + otherSums m)
                    (counts m ! index m + otherCounts m)
        else Inl IndexOutOfRange)
   \<and> (0 < interval \<and> 2 \<le> gran \<longrightarrow>
        (\<exists>r'. RateCounter_run (nat gran) es (fst (NewRateCounterWithGranularity interval gran))
                = Inr r'
           \<and> Rate r' = Inr (window_sum (nat gran) es)
           \<and> bins r' ! RateCounter.index r' = period_sum 0 es
           \<and> others r' = window_sum (nat gran) es - period_sum 0 es))"
proof -
  have windowed: "\<exists>r'. RateCounter_run (nat gran) es
                       (fst (NewRateCounterWithGranularity interval gran)) = Inr r'
           \<and> Rate r' = Inr (window_sum (nat gran) es)
           \<and> bins r' ! RateCounter.index r' = period_sum 0 es
           \<and> others r' = window_sum (nat gran) es - period_sum 0 es"
    if pos: "0 < interval" and g: "2 \<le> gran"
  proof -
    from g have g': "2 \<le> nat gran" by simp
    from window_inv_run[OF g' window_inv_init[OF pos g], of es]
    obtain r' where run: "RateCounter_run (nat gran) es
        (fst (NewRateCounterWithGranularity interval gran)) = Inr r'"
      and inv: "window_inv (nat gran) es r'" by blast
    let ?i = "RateCounter.index r'"
    from inv have len: "length (bins r') = nat gran"
      and idx: "?i = rotations es mod nat gran"
      and content: "\<And>j. j < nat gran \<Longrightarrow> bins r' ! j = period_sum (age (nat gran) ?i j) es"
      and total: "others r' + bins r' ! ?i = window_sum (nat gran) es"
      unfolding window_inv_def by blast+
    have i: "?i < nat gran" using g' idx by simp
    have active: "bins r' ! ?i = period_sum 0 es"
      using content[OF i] by (simp add: age_def)
    have "Rate r' = Inr (window_sum (nat gran) es)"
      using len i total by (simp add: Rate_def)
    moreover have "others r' = window_sum (nat gran) es - period_sum 0 es"
      using total active by (simp add: algebra_simps)
    ultimately show ?thesis using run active by blast
  qed
  have "Rate r =
     (if RateCounter.index r < length (bins r)
      then Inr (bins r ! RateCounter.index r + others r) else Inl IndexOutOfRange)"
    by (simp add: Rate_def add.commute)
  moreover have "Average m =
       (if index m < length (sums m) \<and> index m < length (counts m)
        then if counts m ! index m + otherCounts m = 0 then Inr 0
             else int64_div (sums m ! index m + otherSums m)
                    (counts m ! index m + otherCounts m)
        else Inl IndexOutOfRange)"
    by (simp add: Average_def Let_def)
  ultimately show ?thesis using windowed by blast
qed

theorem rate_is_window_sum_witness:
  "(0::int) < 1000000000 \<and> (2::int) \<le> 4
   \<and> (\<exists>r'. RateCounter_run (nat 4) [EvAdd 5, EvRotate, EvAdd 7, EvRotate, EvRotate, EvRotate, EvAdd 1]
               (fst (NewRateCounterWithGranularity 1000000000 4)) = Inr r'
          \<and> Rate r' = Inr 8)"
proof -
  let ?es = "[EvAdd 5, EvRotate, EvAdd 7, EvRotate, EvRotate, EvRotate, EvAdd 1]"
  have h: "(0::int) < 1000000000 \<and> (2::int) \<le> 4" by simp
  with rate_is_window_sum[of "fst NewCounter" "fst NewAverage" 1000000000 4 ?es]
  obtain r' where "RateCounter_run (nat 4) ?es
      (fst (NewRateCounterWithGranularity 1000000000 4)) = Inr r'"
    and "Rate r' = Inr (window_sum (nat 4) ?es)" by blast
  moreover have "window_sum (nat 4) ?es = 8" by simp
  ultimately show ?thesis using h by auto
qed

text \<open>
  Claim C4. For a counter constructed in windowed mode with granularity
  \<open>gran \<ge> 2\<close>, after a single \<open>Add(1)\<close> followed by \<open>n\<close> rotation steps and no
  further \<open>Add\<close>, \<open>Rate()\<close> is 1 while \<open>n < gran\<close> and 0 from \<open>n = gran\<close> on, when
  both the active bucket and the carry are zero. When the ticker's period
  \<open>interval / gran\<close> is positive, the goroutine performs these steps, one per
  period elapsed.
\<close>

theorem windowed_eviction:
  assumes "0 < interval" and "2 \<le> gran"
  shows "(\<exists>r. RateCounter_run (nat gran) (EvAdd 1 # replicate n EvRotate)
               (fst (NewRateCounterWithGranularity interval gran)) = Inr r
           \<and> Rate r = Inr (if n < nat gran then 1 else 0)
           \<and> (nat gran \<le> n \<longrightarrow> bins r ! RateCounter.index r = 0 \<and> others r = 0))
         \<and> (gran \<le> interval \<longrightarrow>
              and_then (RateCounter_Add 1 (fst (NewRateCounterWithGranularity interval gran)))
                (\<lambda>r. and_then
                   (RateCounter_elapse n (r, snd (NewRateCounterWithGranularity interval gran)))
                   (\<lambda>s. Rate (fst s)))
              = Inr (if n < nat gran then 1 else 0))"
proof -
  let ?g = "nat gran" and ?es = "EvAdd 1 # replicate n EvRotate"
  let ?new = "NewRateCounterWithGranularity interval gran"
  from assms(2) have g': "2 \<le> ?g" by simp
  from window_inv_run[OF g' window_inv_init[OF assms], of ?es]
  obtain r where run: "RateCounter_run ?g ?es (fst ?new) = Inr r"
    and inv: "window_inv ?g ?es r" by blast
  let ?i = "RateCounter.index r"
  from inv have len: "length (bins r) = ?g"
    and idx: "?i = rotations ?es mod ?g"
    and content: "\<And>j. j < ?g \<Longrightarrow> bins r ! j = period_sum (age ?g ?i j) ?es"
    and total: "others r + bins r ! ?i = window_sum ?g ?es"
    unfolding window_inv_def by blast+
  have i: "?i < ?g" using g' idx by simp
  have w: "window_sum ?g ?es = (if n < ?g then 1 else 0)"
    by (simp add: rotations_replicate window_sum_replicate)
  have active: "bins r ! ?i = (if n = 0 then 1 else 0)"
    using content[OF i] by (simp add: age_def rotations_replicate period_sum_replicate)
  have rate: "Rate r = Inr (if n < ?g then 1 else 0)"
    using len i total w by (simp add: Rate_def)
  have evicted: "bins r ! ?i = 0 \<and> others r = 0" if "?g \<le> n"
    using that g' total w active by simp
  have ticks: "and_then (RateCounter_Add 1 (fst ?new))
                (\<lambda>r. and_then (RateCounter_elapse n (r, snd ?new)) (\<lambda>s. Rate (fst s)))
              = Inr (if n < ?g then 1 else 0)" if "gran \<le> interval"
  proof -
    from that assms(2) have d: "0 < interval div gran"
      by (simp add: pos_imp_zdiv_pos_iff)
    have task: "snd ?new = Rotation (interval div gran) ?g"
      using assms by (simp add: NewRateCounterWithGranularity_def)
    obtain r1 where add: "RateCounter_Add 1 (fst ?new) = Inr r1"
      using run by (cases "RateCounter_Add 1 (fst ?new)") simp_all
    with run have "RateCounter_run ?g (replicate n EvRotate) r1 = Inr r" by simp
    then have "RateCounter_elapse n (r1, snd ?new) = Inr (r, snd ?new)"
      unfolding task by (simp add: RateCounter_elapse_Rotation[OF d])
    with add rate show ?thesis by simp
  qed
  from run rate evicted ticks show ?thesis by blast
qed

theorem windowed_eviction_witness:
  "(0::int) < 1000000000 \<and> (2::int) \<le> 4 \<and> nat 4 \<le> 5 \<and> (4::int) \<le> 1000000000
   \<and> (\<exists>r. RateCounter_run (nat 4) (EvAdd 1 # replicate 5 EvRotate)
              (fst (NewRateCounterWithGranularity 1000000000 4)) = Inr r
          \<and> Rate r = Inr 0 \<and> bins r ! RateCounter.index r = 0 \<and> others r = 0)
   \<and> and_then (RateCounter_Add 1 (fst (NewRateCounterWithGranularity 1000000000 4)))
        (\<lambda>r. and_then
           (RateCounter_elapse 5 (r, snd (NewRateCounterWithGranularity 1000000000 4)))
           (\<lambda>s. Rate (fst s)))
       = Inr 0"
proof -
  have h: "(0::int) < 1000000000" "(2::int) \<le> 4" by simp_all
  have n: "nat 4 \<le> (5::nat)" "\<not> (5::nat) < nat 4" by simp_all
  have p: "(4::int) \<le> 1000000000" by simp
  note inst = windowed_eviction[OF h, of 5]
  from inst n obtain r where "RateCounter_run (nat 4) (EvAdd 1 # replicate 5 EvRotate)
              (fst (NewRateCounterWithGranularity 1000000000 4)) = Inr r"
    and "Rate r = Inr 0" and "bins r ! RateCounter.index r = 0" and "others r = 0"
    by auto
  then have first: "\<exists>r. RateCounter_run (nat 4) (EvAdd 1 # replicate 5 EvRotate)
              (fst (NewRateCounterWithGranularity 1000000000 4)) = Inr r
          \<and> Rate r = Inr 0 \<and> bins r ! RateCounter.index r = 0 \<and> others r = 0"
    by blast
  from inst p n have "and_then (RateCounter_Add 1 (fst (NewRateCounterWithGranularity 1000000000 4)))
        (\<lambda>r. and_then
           (RateCounter_elapse 5 (r, snd (NewRateCounterWithGranularity 1000000000 4)))
           (\<lambda>s. Rate (fst s)))
       = Inr 0" by auto
  with first h n p show ?thesis by blast
qed

section \<open>Producers running concurrently\<close>

lemma pending_update:
  "k < length ps \<Longrightarrow> pending (ps[k := p]) + remaining (ps ! k) = pending ps + remaining p"
  unfolding pending_def
proof (induction ps arbitrary: k)
  case Nil
  then show ?case by simp
next
  case (Cons a ps)
  then show ?case by (cases k) (simp_all add: ac_simps)
qed

lemma list_all_update: "list_all P ps \<Longrightarrow> P p \<Longrightarrow> list_all P (ps[k := p])"
  by (induction ps arbitrary: k) (auto split: nat.splits)

lemma list_all_nth: "list_all P ps \<Longrightarrow> k < length ps \<Longrightarrow> P (ps ! k)"
  by (simp add: list_all_length)

lemma pending_replicate: "pending (replicate P (Idle N)) = P * N"
  by (induction P) (simp_all add: pending_def)

lemma pending_finished: "list_all (\<lambda>p. p = Idle 0) ps \<Longrightarrow> pending ps = 0"
  by (induction ps) (simp_all add: pending_def)

text \<open>
  When \<open>r.index\<close> is still the index the producer has read, completing the call
  is \<open>RateCounter_Add\<close> on the counter as it is.
\<close>

lemma producer_step_completes_call:
  assumes "k < length ps" and "ps ! k = Loaded (RateCounter.index r) n"
  shows "producer_step val k (r, ps) =
           and_then (RateCounter_Add val r) (\<lambda>r'. Inr (r', ps[k := Idle n]))"
proof (cases "RateCounter.index r < length (bins r)")
  case True
  then show ?thesis using assms by (simp add: RateCounter_Add_def)
next
  case False
  then show ?thesis using assms by (simp add: RateCounter_Add_def)
qed

lemma producers_inv_step:
  assumes "producers_inv val calls r ps"
  shows "\<exists>r' ps'. producer_step val k (r, ps) = Inr (r', ps') \<and> producers_inv val calls r' ps'
              \<and> length ps' = length ps"
proof -
  let ?i = "RateCounter.index r"
  from assms have i: "?i < length (bins r)" and ok: "list_all (holds_index ?i) ps"
    and le: "pending ps \<le> calls"
    and rate: "others r + bins r ! ?i = word_of_nat (calls - pending ps) * val"
    unfolding producers_inv_def by blast+
  show ?thesis
  proof (cases "k < length ps")
    case False
    then show ?thesis using assms by simp
  next
    case k: True
    show ?thesis
    proof (cases "ps ! k")
      case (Idle n)
      show ?thesis
      proof (cases n)
        case 0
        with Idle k show ?thesis using assms by simp
      next
        case (Suc n')
        let ?ps' = "ps[k := Loaded ?i n']"
        have step: "producer_step val k (r, ps) = Inr (r, ?ps')"
          using k Idle Suc by simp
        have "pending ?ps' = pending ps"
          using pending_update[OF k, of "Loaded ?i n'"] Idle Suc by simp
        moreover have "list_all (holds_index ?i) ?ps'" using ok by (rule list_all_update) simp
        ultimately have "producers_inv val calls r ?ps'"
          unfolding producers_inv_def using i le rate by simp
        with step show ?thesis by simp
      qed
    next
      case (Loaded j n)
      from list_all_nth[OF ok k] Loaded have j: "j = ?i" by simp
      let ?r' = "r\<lparr>bins := (bins r)[?i := bins r ! ?i + val]\<rparr>"
      let ?ps' = "ps[k := Idle n]"
      have step: "producer_step val k (r, ps) = Inr (?r', ?ps')"
        using k Loaded j i by (simp add: producer_step_completes_call RateCounter_Add_def)
      have pend: "pending ps = Suc (pending ?ps')"
        using pending_update[OF k, of "Idle n"] Loaded by simp
      have ok': "list_all (holds_index ?i) ?ps'" using ok by (rule list_all_update) simp
      have "calls - pending ?ps' = Suc (calls - pending ps)"
        using pend le by simp
      then have "word_of_nat (calls - pending ?ps') * val
          = word_of_nat (calls - pending ps) * val + val"
        by (simp add: algebra_simps)
      with rate have rate': "others r + (bins r ! ?i + val) = word_of_nat (calls - pending ?ps') * val"
        by (simp add: add.assoc)
      have le': "pending ?ps' \<le> calls" using le pend by simp
      have "producers_inv val calls ?r' ?ps'"
        unfolding producers_inv_def using i ok' le' rate' by simp
      with step show ?thesis by simp
    qed
  qed
qed

lemma producers_inv_interleave:
  assumes "producers_inv val calls r ps"
  shows "\<exists>r' ps'. interleave val ks (r, ps) = Inr (r', ps') \<and> producers_inv val calls r' ps'
              \<and> length ps' = length ps"
  using assms
proof (induction ks arbitrary: r ps)
  case Nil
  then show ?case by simp
next
  case (Cons k ks)
  from producers_inv_step[OF Cons.prems, of k]
  obtain r1 ps1 where s1: "producer_step val k (r, ps) = Inr (r1, ps1)"
    "producers_inv val calls r1 ps1" "length ps1 = length ps" by blast
  from Cons.IH[OF s1(2)] s1(1,3) show ?case by simp
qed

lemma producers_inv_init:
  "producers_inv val (P * N) (fst (NewRateCounterWithGranularity interval gran))
     (replicate P (Idle N))"
proof -
  obtain n where new: "fst (NewRateCounterWithGranularity interval gran)
         = \<lparr>others = 0, bins = replicate (Suc n) 0, index = 0\<rparr>"
    using NewRateCounter_shape by blast
  have "list_all (holds_index 0) (replicate P (Idle N))"
    by (induction P) simp_all
  then show ?thesis
    by (simp add: producers_inv_def new pending_replicate)
qed

lemma sum_list_map_update:
  fixes f :: "'a \<Rightarrow> nat"
  shows "k < length ps \<Longrightarrow>
    sum_list (map f (ps[k := p])) + f (ps ! k) = sum_list (map f ps) + f p"
proof (induction ps arbitrary: k)
  case Nil
  then show ?case by simp
next
  case (Cons a ps)
  then show ?case by (cases k) (simp_all add: ac_simps)
qed

lemma steps_step:
  assumes "k < length ps" and "ps ! k \<noteq> Idle 0"
    and "producer_step val k (r, ps) = Inr (r', ps')"
  shows "steps ps' < steps ps"
proof (cases "ps ! k")
  case (Idle n)
  with assms(2) obtain n' where n: "n = Suc n'" by (cases n) simp_all
  with assms(1,3) Idle have "ps' = ps[k := Loaded (RateCounter.index r) n']" by auto
  with sum_list_map_update[OF assms(1), of steps_left "Loaded (RateCounter.index r) n'"] Idle n
  show ?thesis by (simp add: steps_def)
next
  case (Loaded i n)
  with assms(1,3) have "ps' = ps[k := Idle n]"
    by (auto simp: RateCounter_Add_def split: if_splits)
  with sum_list_map_update[OF assms(1), of steps_left "Idle n"] Loaded
  show ?thesis by (simp add: steps_def)
qed

lemma unfinished_producer:
  "\<not> list_all (\<lambda>p. p = Idle 0) ps \<Longrightarrow> \<exists>k<length ps. ps ! k \<noteq> Idle 0"
  by (auto simp: list_all_length)

lemma producers_finish:
  assumes "producers_inv val calls r ps"
  shows "\<exists>ks r' ps'. interleave val ks (r, ps) = Inr (r', ps')
           \<and> list_all (\<lambda>p. p = Idle 0) ps'"
  using assms
proof (induction "steps ps" arbitrary: r ps rule: less_induct)
  case less
  show ?case
  proof (cases "list_all (\<lambda>p. p = Idle 0) ps")
    case True
    then have "interleave val [] (r, ps) = Inr (r, ps) \<and> list_all (\<lambda>p. p = Idle 0) ps"
      by simp
    then show ?thesis by blast
  next
    case False
    then obtain k where k: "k < length ps" "ps ! k \<noteq> Idle 0"
      using unfinished_producer by blast
    from producers_inv_step[OF less.prems, of k]
    obtain r1 ps1 where s1: "producer_step val k (r, ps) = Inr (r1, ps1)"
      and inv1: "producers_inv val calls r1 ps1" by blast
    from steps_step[OF k s1] have "steps ps1 < steps ps" .
    from less.hyps[OF this inv1]
    obtain ks r' ps' where "interleave val ks (r1, ps1) = Inr (r', ps')"
      and fin: "list_all (\<lambda>p. p = Idle 0) ps'" by blast
    with s1 have "interleave val (k # ks) (r, ps) = Inr (r', ps')" by simp
    with fin show ?thesis by blast
  qed
qed

text \<open>
  Claim C8. With no rotation taking place, whatever the interleaving of the
  steps of \<open>P\<close> producers that each call \<open>Add(1)\<close> \<open>N\<close> times, no step panics and
  \<open>Rate()\<close> is the number of calls completed so far; once all producers have
  finished it is \<open>P * N\<close>, so 10000 for 10 producers of 1000 calls each: no
  update is lost. Some interleaving lets all producers finish.
\<close>

theorem concurrent_add_conservation:
  "(\<exists>r ps. interleave 1 ks (fst (NewRateCounterWithGranularity interval gran),
                            replicate P (Idle N)) = Inr (r, ps)
        \<and> length ps = P \<and> pending ps \<le> P * N
        \<and> Rate r = Inr (word_of_nat (P * N - pending ps))
        \<and> (list_all (\<lambda>p. p = Idle 0) ps \<longrightarrow> Rate r = Inr (word_of_nat (P * N))))
   \<and> (interleave 1 ks (fst (NewRateCounterWithGranularity interval gran),
                       replicate 10 (Idle 1000)) = Inr (r, ps)
        \<and> list_all (\<lambda>p. p = Idle 0) ps \<longrightarrow> Rate r = Inr 10000)
   \<and> (\<exists>ks' r' ps'. interleave 1 ks' (fst (NewRateCounterWithGranularity interval gran),
                                     replicate P (Idle N)) = Inr (r', ps')
        \<and> list_all (\<lambda>p. p = Idle 0) ps' \<and> Rate r' = Inr (word_of_nat (P * N)))"
proof -
  let ?fresh = "fst (NewRateCounterWithGranularity interval gran)"
  have general: "\<exists>r ps. interleave 1 ks (?fresh, replicate P (Idle N)) = Inr (r, ps)
        \<and> length ps = P \<and> pending ps \<le> P * N
        \<and> Rate r = Inr (word_of_nat (P * N - pending ps))
        \<and> (list_all (\<lambda>p. p = Idle 0) ps \<longrightarrow> Rate r = Inr (word_of_nat (P * N)))"
    for P N ks
  proof -
    from producers_inv_interleave[OF producers_inv_init[of 1 P N interval gran], of ks]
    obtain r ps where run: "interleave 1 ks (?fresh, replicate P (Idle N)) = Inr (r, ps)"
      and inv: "producers_inv 1 (P * N) r ps" and len: "length ps = P" by auto
    from inv have i: "RateCounter.index r < length (bins r)"
      and le: "pending ps \<le> P * N"
      and rate: "others r + bins r ! RateCounter.index r = word_of_nat (P * N - pending ps) * 1"
      unfolding producers_inv_def by blast+
    have r: "Rate r = Inr (word_of_nat (P * N - pending ps))"
      using i rate by (simp add: Rate_def)
    have "Rate r = Inr (word_of_nat (P * N))" if "list_all (\<lambda>p. p = Idle 0) ps"
      using r pending_finished[OF that] by simp
    with run len le r show ?thesis by blast
  qed
  have thousand: "Rate r = Inr 10000"
    if "interleave 1 ks (?fresh, replicate 10 (Idle 1000)) = Inr (r, ps)"
      and "list_all (\<lambda>p. p = Idle 0) ps"
  proof -
    from general[of ks 10 1000] that have "Rate r = Inr (word_of_nat (10 * 1000))" by auto
    then show ?thesis by simp
  qed
  have finish: "\<exists>ks' r' ps'. interleave 1 ks' (?fresh, replicate P (Idle N)) = Inr (r', ps')
        \<and> list_all (\<lambda>p. p = Idle 0) ps' \<and> Rate r' = Inr (word_of_nat (P * N))"
  proof -
    from producers_finish[OF producers_inv_init[of 1 P N interval gran]]
    obtain ks' r' ps' where run: "interleave 1 ks' (?fresh, replicate P (Idle N)) = Inr (r', ps')"
      and fin: "list_all (\<lambda>p. p = Idle 0) ps'" by blast
    from general[of ks' P N] run fin have "Rate r' = Inr (word_of_nat (P * N))" by auto
    with run fin show ?thesis by blast
  qed
  from general[of ks P N] thousand finish show ?thesis by blast
qed

theorem concurrent_add_conservation_witness:
  "interleave 1 [0, 1, 1, 0, 1, 0, 0, 1] (fst (NewRateCounterWithGranularity 0 1), replicate 2 (Idle 2))
     = Inr (\<lparr>others = 0, bins = [4], index = 0\<rparr>, [Idle 0, Idle 0])
   \<and> list_all (\<lambda>p. p = Idle 0) [Idle 0, Idle 0]
   \<and> Rate \<lparr>others = 0, bins = [4], index = 0\<rparr> = Inr (word_of_nat (2 * 2))"
proof -
  let ?ks = "[0, 1, 1, 0, 1, 0, 0, 1]"
  have run: "interleave 1 ?ks (fst (NewRateCounterWithGranularity 0 1), replicate 2 (Idle 2))
     = Inr (\<lparr>others = 0, bins = [4], index = 0\<rparr>, [Idle 0, Idle 0])"
    by (simp add: NewRateCounterWithGranularity_def RateCounter_Add_def numeral_2_eq_2)
  have fin: "list_all (\<lambda>p. p = Idle 0) [Idle 0, Idle 0]" by simp
  from concurrent_add_conservation[of ?ks 0 1 2 2]
  obtain r ps where a: "interleave 1 ?ks
        (fst (NewRateCounterWithGranularity 0 1), replicate 2 (Idle 2)) = Inr (r, ps)"
    and b: "list_all (\<lambda>p. p = Idle 0) ps \<longrightarrow> Rate r = Inr (word_of_nat (2 * 2))"
    by blast
  from a have "r = \<lparr>others = 0, bins = [4], index = 0\<rparr>" and "ps = [Idle 0, Idle 0]"
    unfolding run by simp_all
  with b fin have "Rate \<lparr>others = 0, bins = [4], index = 0\<rparr> = Inr (word_of_nat (2 * 2))"
    by blast
  with run fin show ?thesis by blast
qed

end
